theory Spec2Isabelle
  imports Main "HOL-Library.Multiset"
begin

unbundle bit_operations_syntax

chapter \<open>MIDI ports and connectors (package midi)\<close>

text \<open>
  A shallow embedding of \<^verbatim>\<open>src/midi/ports.go\<close>: the ports (\<^verbatim>\<open>FakePort\<close>,
  \<^verbatim>\<open>SystemPort\<close>, \<^verbatim>\<open>SystemOutPort\<close>) and the connectors (\<^verbatim>\<open>Pipe\<close>, \<^verbatim>\<open>Router\<close>,
  \<^verbatim>\<open>Funnel\<close>, \<^verbatim>\<open>Chain\<close>).

  Go's \<^verbatim>\<open>int\<close> is modelled by \<open>int\<close>: every value the code computes is masked to a byte,
  so no overflow can occur. A method that mutates its receiver takes the receiver and
  returns it updated. A call can return, block on a channel operation, or panic; the
  three are the constructors of \<open>outcome\<close>. The transport (PortMidi, called through cgo)
  is not part of the model: what a transport call returns is a parameter of the function
  that makes the call.
\<close>

section \<open>Go channels\<close>

text \<open>
  A channel value is \<^verbatim>\<open>nil\<close> or a buffer with a capacity and a closed flag. The three
  operations follow the Go language specification: a send on a closed channel and a
  close of a closed or nil channel panic; a send blocks while the buffer is full and on
  a nil channel; a receive takes the oldest buffered value, yields the zero value with
  \<^verbatim>\<open>ok = false\<close> (here \<open>None\<close>) on a closed and drained channel, and blocks otherwise.
  \<open>Blocks\<close> means that the operation cannot complete in this state of the channel: the
  goroutine waits until another goroutine changes the channel.
\<close>

type_synonym error = string

datatype 'a outcome = Returns 'a | Blocks | Panics string

datatype 'a chan = NilChan | Chan nat "'a list" bool

fun chan_buf :: "'a chan \<Rightarrow> 'a list" where
  "chan_buf NilChan = []"
| "chan_buf (Chan c buf cl) = buf"

fun chan_closed :: "'a chan \<Rightarrow> bool" where
  "chan_closed NilChan = False"
| "chan_closed (Chan c buf cl) = cl"

fun chan_send :: "'a chan \<Rightarrow> 'a \<Rightarrow> 'a chan outcome" where
  "chan_send NilChan v = Blocks"
| "chan_send (Chan c buf cl) v =
     (if cl then Panics ''send on closed channel''
      else if length buf < c then Returns (Chan c (buf @ [v]) cl)
      else Blocks)"

fun chan_recv :: "'a chan \<Rightarrow> ('a option \<times> 'a chan) outcome" where
  "chan_recv NilChan = Blocks"
| "chan_recv (Chan c (v # buf) cl) = Returns (Some v, Chan c buf cl)"
| "chan_recv (Chan c [] cl) = (if cl then Returns (None, Chan c [] cl) else Blocks)"

fun chan_close :: "'a chan \<Rightarrow> 'a chan outcome" where
  "chan_close NilChan = Panics ''close of nil channel''"
| "chan_close (Chan c buf cl) =
     (if cl then Panics ''close of closed channel'' else Returns (Chan c buf True))"

section \<open>Messages and events\<close>

text \<open>
  \<^verbatim>\<open>Message\<close> is the struct that \<^verbatim>\<open>readEvent\<close> fills. The event types \<^verbatim>\<open>NoteOn\<close>,
  \<^verbatim>\<open>NoteOff\<close> and \<^verbatim>\<open>ControlChange\<close> are built positionally in \<^verbatim>\<open>SystemOutPort.Run\<close>; a
  \<^verbatim>\<open>Message\<close> is itself sent as an event there (\<open>RawMessage\<close>).
\<close>

record Message =
  Channel :: int
  Command :: int
  Data1 :: int
  Data2 :: int

datatype Event =
    NoteOn int int int
  | NoteOff int int int
  | ControlChange int int int string
  | RawMessage Message

text \<open>
  The command constants \<^verbatim>\<open>NOTE_OFF\<close>, \<^verbatim>\<open>NOTE_ON\<close> and \<^verbatim>\<open>CONTROL_CHANGE\<close> and the table
  \<^verbatim>\<open>ControlChangeNames\<close> are declared in a file of the package that is not part of the
  sources at hand, so they are parameters of every function that uses them.
  \<open>midi_commands\<close> gives the constants the values of the MIDI standard; it is used for
  concrete evaluations only.
\<close>

record midi_constants =
  NOTE_OFF :: int
  NOTE_ON :: int
  CONTROL_CHANGE :: int

definition midi_commands :: midi_constants where
  "midi_commands = \<lparr>NOTE_OFF = 0x80, NOTE_ON = 0x90, CONTROL_CHANGE = 0xB0\<rparr>"

definition sample_names :: "int \<rightharpoonup> string" where
  "sample_names = [1 \<mapsto> ''Modulation'', 7 \<mapsto> ''Volume'']"

section \<open>Ports\<close>

subsection \<open>makePortMidiError\<close>

text \<open>
  \<^verbatim>\<open>Pm_GetErrorText\<close> belongs to the transport: \<open>errorText\<close> is the text it gives for an
  error number.
\<close>

definition makePortMidiError :: "(int \<Rightarrow> string) \<Rightarrow> int \<Rightarrow> error option" where
  "makePortMidiError errorText errNum =
     (let msg = errorText errNum in if msg = [] then None else Some msg)"

subsection \<open>FakePort\<close>

record FakePort =
  fp_isOpen :: bool
  fp_events :: "Event chan"
  IsInputPort :: bool

text \<open>\<^verbatim>\<open>BufferSize\<close> is a constant of the package declared outside the sources at hand.\<close>

definition FakePort_Open :: "nat \<Rightarrow> FakePort \<Rightarrow> error option \<times> FakePort" where
  "FakePort_Open BufferSize t =
     (None, t\<lparr>fp_isOpen := True, fp_events := Chan BufferSize [] False\<rparr>)"

definition FakePort_Close :: "FakePort \<Rightarrow> error option outcome \<times> FakePort" where
  "FakePort_Close t =
     (case chan_close (fp_events t) of
        Returns c \<Rightarrow> (Returns None, t\<lparr>fp_events := c, fp_isOpen := False\<rparr>)
      | Blocks \<Rightarrow> (Blocks, t)
      | Panics msg \<Rightarrow> (Panics msg, t))"

definition FakePort_IsOpen :: "FakePort \<Rightarrow> bool" where
  "FakePort_IsOpen t = fp_isOpen t"

subsection \<open>SystemPort\<close>

text \<open>The stream is a pointer: \<open>None\<close> is \<^verbatim>\<open>nil\<close>.\<close>

record SystemPort =
  isOpen :: bool
  port_id :: int
  stream :: "nat option"
  events :: "Event chan"
  stop :: "bool chan"


text \<open>
  The effects of \<^verbatim>\<open>Close\<close> that other goroutines and the transport can observe. \<^verbatim>\<open>Close\<close>
  is modelled with its trace: the effects in the order in which they happen, each with
  the port as it is right after the effect.
\<close>

datatype effect = StopSignalSent | TransportClosed | EventsChannelClosed

text \<open>\<open>pm_close\<close> is the error number that \<^verbatim>\<open>Pm_Close\<close> returns.\<close>

definition SystemPort_Close ::
  "(int \<Rightarrow> string) \<Rightarrow> int \<Rightarrow> SystemPort
     \<Rightarrow> error option outcome \<times> SystemPort \<times> (effect \<times> SystemPort) list" where
  "SystemPort_Close errorText pm_close s =
     (if isOpen s then
        (let s1 = s\<lparr>isOpen := False\<rparr> in
         case chan_send (stop s1) True of
           Blocks \<Rightarrow> (Blocks, s1, [])
         | Panics msg \<Rightarrow> (Panics msg, s1, [])
         | Returns c \<Rightarrow>
             (let s2 = s1\<lparr>stop := c\<rparr>; errNum = pm_close in
              case chan_close (events s2) of
                Blocks \<Rightarrow> (Blocks, s2, [(StopSignalSent, s2), (TransportClosed, s2)])
              | Panics msg \<Rightarrow> (Panics msg, s2, [(StopSignalSent, s2), (TransportClosed, s2)])
              | Returns c' \<Rightarrow>
                  (let s3 = s2\<lparr>events := c'\<rparr> in
                   (Returns (makePortMidiError errorText errNum), s3,
                    [(StopSignalSent, s2), (TransportClosed, s2),
                     (EventsChannelClosed, s3)]))))
      else (Returns None, s, []))"

definition SystemPort_IsOpen :: "SystemPort \<Rightarrow> bool" where
  "SystemPort_IsOpen s = isOpen s"

subsection \<open>SystemOutPort: poll, readEvent and one iteration of Run\<close>

text \<open>\<open>pm_poll\<close> is what the cgo call \<^verbatim>\<open>C.Pm_Poll(s.stream)\<close> returns: a number and an error.\<close>

definition poll :: "SystemPort \<Rightarrow> int \<times> error option \<Rightarrow> bool \<times> error option" where
  "poll s pm_poll =
     (if stream s = None then (False, Some ''No input stream set.'')
      else if SystemPort_IsOpen s = False then (False, Some ''Port is not open.'')
      else (case pm_poll of
              (dataAvailable, Some err) \<Rightarrow> (False, Some err)
            | (dataAvailable, None) \<Rightarrow>
                if dataAvailable > 0 then (True, None) else (False, None)))"

text \<open>
  \<open>eventsRead\<close> is what \<^verbatim>\<open>Pm_Read\<close> returns and \<open>message\<close> is the \<^verbatim>\<open>PmMessage\<close> it stored in
  the buffer. \<^verbatim>\<open>PmMessage\<close> is a signed integer type, so Go's \<^verbatim>\<open>>>\<close> on it is the
  arithmetic shift, which is \<open>drop_bit\<close> on \<open>int\<close>, and \<^verbatim>\<open>&\<close> is \<open>AND\<close> on \<open>int\<close>.
\<close>

definition readEvent :: "int \<Rightarrow> int \<Rightarrow> Message \<times> error option" where
  "readEvent eventsRead message =
     (let m = \<lparr>Channel = 0, Command = 0, Data1 = 0, Data2 = 0\<rparr> in
      if eventsRead > 0 then
        (let status = message AND 0xFF in
         (m\<lparr>Channel := status AND 0x0F,
            Command := status AND 0xF0,
            Data1 := drop_bit 8 message AND 0xFF,
            Data2 := drop_bit 16 message AND 0xFF\<rparr>, None))
      else (m, None))"

text \<open>
  The \<^verbatim>\<open>switch m.Command\<close> of \<^verbatim>\<open>Run\<close>: the event that is sent to \<^verbatim>\<open>s.events\<close>. The cases
  are tried in the order of the source.
\<close>

definition classify :: "midi_constants \<Rightarrow> (int \<rightharpoonup> string) \<Rightarrow> Message \<Rightarrow> Event" where
  "classify k ControlChangeNames m =
     (if Command m = NOTE_ON k then NoteOn (Channel m) (Data1 m) (Data2 m)
      else if Command m = NOTE_OFF k then NoteOff (Channel m) (Data1 m) 0
      else if Command m = CONTROL_CHANGE k then
        (let name = (case ControlChangeNames (Data1 m) of
                       Some n \<Rightarrow> n
                     | None \<Rightarrow> ''Unknown'')
         in ControlChange (Channel m) (Data1 m) (Data2 m) name)
      else RawMessage m)"

text \<open>
  One pass through the body of the \<^verbatim>\<open>for\<close> loop of \<^verbatim>\<open>SystemOutPort.Run\<close>. The
  \<^verbatim>\<open>select\<close> takes the stop case when a receive from \<^verbatim>\<open>s.stop\<close> can complete, and the
  \<^verbatim>\<open>default\<close> case otherwise.
\<close>

datatype iteration =
    Stopped
  | PollPanic error
  | Slept
  | Retried
  | Published Event
  | SendBlocked Event
  | ChannelPanic string

definition Run_iteration ::
  "midi_constants \<Rightarrow> (int \<rightharpoonup> string) \<Rightarrow> SystemPort \<Rightarrow> int \<times> error option \<Rightarrow> int \<Rightarrow> int
     \<Rightarrow> iteration \<times> SystemPort" where
  "Run_iteration k ControlChangeNames s pm_poll eventsRead message =
     (case chan_recv (stop s) of
        Returns (v, c) \<Rightarrow> (Stopped, s\<lparr>stop := c\<rparr>)
      | Panics msg \<Rightarrow> (ChannelPanic msg, s)
      | Blocks \<Rightarrow>
          (case poll s pm_poll of
             (dataAvailable, Some err) \<Rightarrow> (PollPanic err, s)
           | (dataAvailable, None) \<Rightarrow>
               if dataAvailable = False then (Slept, s)
               else (case readEvent eventsRead message of
                       (m, Some err) \<Rightarrow> (Retried, s)
                     | (m, None) \<Rightarrow>
                         (let e = classify k ControlChangeNames m in
                          case chan_send (events s) e of
                            Returns c \<Rightarrow> (Published e, s\<lparr>events := c\<rparr>)
                          | Blocks \<Rightarrow> (SendBlocked e, s)
                          | Panics msg \<Rightarrow> (ChannelPanic msg, s)))))"

text \<open>
  The same pass in two steps, for executions in which another goroutine acts between
  them: \<open>Run_receive\<close> is the pass up to the \<^verbatim>\<open>switch\<close>, and yields the event that the
  loop is about to send (\<open>Inr\<close>) or the end of the pass (\<open>Inl\<close>); \<open>Run_publish\<close> is the
  send \<^verbatim>\<open>s.events <- e\<close>.
\<close>

definition Run_receive ::
  "midi_constants \<Rightarrow> (int \<rightharpoonup> string) \<Rightarrow> SystemPort \<Rightarrow> int \<times> error option \<Rightarrow> int \<Rightarrow> int
     \<Rightarrow> (iteration + Event) \<times> SystemPort" where
  "Run_receive k ControlChangeNames s pm_poll eventsRead message =
     (case chan_recv (stop s) of
        Returns (v, c) \<Rightarrow> (Inl Stopped, s\<lparr>stop := c\<rparr>)
      | Panics msg \<Rightarrow> (Inl (ChannelPanic msg), s)
      | Blocks \<Rightarrow>
          (case poll s pm_poll of
             (dataAvailable, Some err) \<Rightarrow> (Inl (PollPanic err), s)
           | (dataAvailable, None) \<Rightarrow>
               if dataAvailable = False then (Inl Slept, s)
               else (case readEvent eventsRead message of
                       (m, Some err) \<Rightarrow> (Inl Retried, s)
                     | (m, None) \<Rightarrow> (Inr (classify k ControlChangeNames m), s))))"

definition Run_publish :: "SystemPort \<Rightarrow> Event \<Rightarrow> iteration \<times> SystemPort" where
  "Run_publish s e =
     (case chan_send (events s) e of
        Returns c \<Rightarrow> (Published e, s\<lparr>events := c\<rparr>)
      | Blocks \<Rightarrow> (SendBlocked e, s)
      | Panics msg \<Rightarrow> (ChannelPanic msg, s))"


subsection \<open>The raw encoding of an event\<close>

text \<open>
  Modelled from the spec: the methods \<^verbatim>\<open>ToRawMessage\<close> of the event types are declared
  outside the sources at hand. The spec gives the layout of a raw frame: a packed value
  whose low byte is the status (high nibble the command, low nibble the channel), whose
  next byte is data1 and whose next byte is data2. A typed event is encoded with the
  command of its type; a raw message with its own command.
\<close>

definition Message_ToRawMessage :: "Message \<Rightarrow> int" where
  "Message_ToRawMessage m =
     (Command m OR Channel m) OR push_bit 8 (Data1 m) OR push_bit 16 (Data2 m)"

fun ToRawMessage :: "midi_constants \<Rightarrow> Event \<Rightarrow> int" where
  "ToRawMessage k (NoteOn c key v) =
     Message_ToRawMessage \<lparr>Channel = c, Command = NOTE_ON k, Data1 = key, Data2 = v\<rparr>"
| "ToRawMessage k (NoteOff c key v) =
     Message_ToRawMessage \<lparr>Channel = c, Command = NOTE_OFF k, Data1 = key, Data2 = v\<rparr>"
| "ToRawMessage k (ControlChange c n v name) =
     Message_ToRawMessage \<lparr>Channel = c, Command = CONTROL_CHANGE k, Data1 = n, Data2 = v\<rparr>"
| "ToRawMessage k (RawMessage m) = Message_ToRawMessage m"

text \<open>The three bytes of a frame that the spec compares: status, data1 and data2.\<close>

definition frame_bytes :: "int \<Rightarrow> int \<times> int \<times> int" where
  "frame_bytes x = (x AND 0xFF, drop_bit 8 x AND 0xFF, drop_bit 16 x AND 0xFF)"

section \<open>Connectors\<close>

text \<open>
  \<^verbatim>\<open>Device\<close> is an interface declared outside the sources at hand. A device is a value of
  a type \<open>'d\<close>, the devices' common state is a value of a type \<open>'w\<close>, and a method of
  the interface (\<^verbatim>\<open>Open\<close>, \<^verbatim>\<open>Close\<close>) is a parameter: it takes the device and the state
  and returns its error and the new state. A \<^verbatim>\<open>nil\<close> interface value is \<open>None\<close>.
\<close>

type_synonym ('d, 'w) device_method = "'d \<Rightarrow> 'w \<Rightarrow> error option \<times> 'w"

subsection \<open>Pipe\<close>

record 'd Pipe =
  From :: "'d option"
  To :: "'d option"
  pipe_stop :: "bool chan"

text \<open>The value \<^verbatim>\<open>Pipe{}\<close>.\<close>

definition Pipe_zero :: "'d Pipe" where
  "Pipe_zero = \<lparr>From = None, To = None, pipe_stop = NilChan\<rparr>"

definition NewPipe :: "('d, 'w) device_method \<Rightarrow> 'd \<Rightarrow> 'd \<Rightarrow> 'w \<Rightarrow> 'd Pipe \<times> error option \<times> 'w" where
  "NewPipe Open from to w =
     (let pipe = \<lparr>From = Some from, To = Some to, pipe_stop = Chan 1 [] False\<rparr> in
      case Open from w of
        (Some err, w1) \<Rightarrow> (Pipe_zero, Some err, w1)
      | (None, w1) \<Rightarrow>
          (case Open to w1 of
             (Some err, w2) \<Rightarrow> (Pipe_zero, Some err, w2)
           | (None, w2) \<Rightarrow> (pipe, None, w2)))"









subsection \<open>Router\<close>

text \<open>
  \<^verbatim>\<open>Router.Connect\<close>: the main loop receives from the source channel
  \<^verbatim>\<open>r.From.OutPort().Events()\<close> and starts, for each event, a goroutine that sends the
  event to \<^verbatim>\<open>r.To[0]\<close>, \<^verbatim>\<open>r.To[1]\<close>, ... in turn. A goroutine is its event, the index of
  the destination it sends to next, and whether a send of it has panicked. The router
  itself keeps no record. The environment records what it does at the ends:
  \<open>source_sent\<close> are the events whose send into the source channel has completed, and
  \<open>dest_consumed\<close> holds, for each destination, the events it has received from the
  destination's channel.
\<close>

record 'e broadcast =
  event :: 'e
  next_dest :: nat
  crashed :: bool

record 'e router_state =
  source :: "'e chan"
  dests :: "'e chan list"
  router_stop :: "bool chan"
  running :: bool
  tasks :: "'e broadcast list"
  source_sent :: "'e list"
  dest_consumed :: "'e list list"

text \<open>
  \<open>RouterInput\<close> and \<open>RouterStop\<close> are the two cases of the \<^verbatim>\<open>select\<close> of the main loop,
  \<open>TaskSend i\<close> is the next send of the \<open>i\<close>-th goroutine; the others are steps of the
  environment.
\<close>

datatype 'e router_action =
    RSourceSend 'e
  | RSourceClose
  | RDestinationReceive nat
  | RDestinationClose nat
  | RStopSignal
  | RouterInput
  | RouterStop
  | TaskSend nat

fun Router_step :: "'e router_action \<Rightarrow> 'e router_state \<Rightarrow> 'e router_state" where
  "Router_step RouterInput s =
     (if running s then
        (case chan_recv (source s) of
           Returns (Some e, c) \<Rightarrow>
             s\<lparr>source := c,
               tasks := tasks s @ [\<lparr>event = e, next_dest = 0, crashed = False\<rparr>]\<rparr>
         | Returns (None, c) \<Rightarrow> s\<lparr>running := False\<rparr>
         | Blocks \<Rightarrow> s
         | Panics msg \<Rightarrow> s)
      else s)"
| "Router_step RouterStop s =
     (if running s then
        (case chan_recv (router_stop s) of
           Returns (v, c) \<Rightarrow> s\<lparr>router_stop := c, running := False\<rparr>
         | Blocks \<Rightarrow> s
         | Panics msg \<Rightarrow> s)
      else s)"
| "Router_step (TaskSend i) s =
     (if i < length (tasks s) then
        (let t = tasks s ! i; j = next_dest t in
         if j < length (dests s) \<and> \<not> crashed t then
           (case chan_send (dests s ! j) (event t) of
              Returns c \<Rightarrow>
                s\<lparr>dests := (dests s)[j := c],
                  tasks := (tasks s)[i := t\<lparr>next_dest := j + 1\<rparr>]\<rparr>
            | Blocks \<Rightarrow> s
            | Panics msg \<Rightarrow> s\<lparr>tasks := (tasks s)[i := t\<lparr>crashed := True\<rparr>]\<rparr>)
         else s)
      else s)"
| "Router_step (RSourceSend e) s =
     (case chan_send (source s) e of
        Returns c \<Rightarrow> s\<lparr>source := c, source_sent := source_sent s @ [e]\<rparr>
      | Blocks \<Rightarrow> s
      | Panics msg \<Rightarrow> s)"
| "Router_step RSourceClose s =
     (case chan_close (source s) of
        Returns c \<Rightarrow> s\<lparr>source := c\<rparr>
      | Blocks \<Rightarrow> s
      | Panics msg \<Rightarrow> s)"
| "Router_step (RDestinationReceive j) s =
     (if j < length (dests s) then
        (case chan_recv (dests s ! j) of
           Returns (Some e, c) \<Rightarrow>
             s\<lparr>dests := (dests s)[j := c],
               dest_consumed := (dest_consumed s)[j := dest_consumed s ! j @ [e]]\<rparr>
         | Returns (None, c) \<Rightarrow> s
         | Blocks \<Rightarrow> s
         | Panics msg \<Rightarrow> s)
      else s)"
| "Router_step (RDestinationClose j) s =
     (if j < length (dests s) then
        (case chan_close (dests s ! j) of
           Returns c \<Rightarrow> s\<lparr>dests := (dests s)[j := c]\<rparr>
         | Blocks \<Rightarrow> s
         | Panics msg \<Rightarrow> s)
      else s)"
| "Router_step RStopSignal s =
     (case chan_send (router_stop s) True of
        Returns c \<Rightarrow> s\<lparr>router_stop := c\<rparr>
      | Blocks \<Rightarrow> s
      | Panics msg \<Rightarrow> s)"

definition Router_run :: "'e router_action list \<Rightarrow> 'e router_state \<Rightarrow> 'e router_state" where
  "Router_run as s = fold Router_step as s"

text \<open>
  The state in which \<^verbatim>\<open>Connect\<close> enters its loop, with \<open>N\<close> destinations: every event
  channel is open and empty, with capacity \<open>n\<close>; the stop channel is the one that
  \<^verbatim>\<open>NewRouter\<close> makes.
\<close>

definition Router_start :: "nat \<Rightarrow> nat \<Rightarrow> 'e router_state" where
  "Router_start N n =
     \<lparr>source = Chan n [] False, dests = replicate N (Chan n [] False),
      router_stop = Chan 1 [] False, running = True, tasks = [], source_sent = [],
      dest_consumed = replicate N []\<rparr>"

text \<open>The events of the goroutines that have completed their send to destination \<open>j\<close>.\<close>

definition passed :: "nat \<Rightarrow> 'e broadcast list \<Rightarrow> 'e list" where
  "passed j ts = map event (filter (\<lambda>t. j < next_dest t) ts)"

text \<open>
  The events that destination \<open>j\<close> has been given: those its receiver has taken from the
  channel, followed by those in the channel.
\<close>

definition given :: "'e router_state \<Rightarrow> nat \<Rightarrow> 'e list" where
  "given s j = dest_consumed s ! j @ chan_buf (dests s ! j)"

subsection \<open>Funnel\<close>

record 'd Funnel =
  funnel_From :: "'d list"
  funnel_To :: "'d option"
  funnel_stop :: "bool chan"

text \<open>The loop \<^verbatim>\<open>for _, from := range f.From\<close> of \<^verbatim>\<open>Stop\<close>: it returns at the first error.\<close>

fun close_each :: "('d, 'w) device_method \<Rightarrow> 'd list \<Rightarrow> 'w \<Rightarrow> error option \<times> 'w" where
  "close_each Close [] w = (None, w)"
| "close_each Close (d # ds) w =
     (case Close d w of
        (Some err, w') \<Rightarrow> (Some err, w')
      | (None, w') \<Rightarrow> close_each Close ds w')"

text \<open>
  \<^verbatim>\<open>Funnel.Stop\<close>. The stop channel is shared with the goroutines of \<^verbatim>\<open>Connect\<close>, so
  the channel after the call is part of the result. A method call on a \<^verbatim>\<open>nil\<close>
  interface value panics.
\<close>

definition Funnel_Stop ::
  "('d, 'w) device_method \<Rightarrow> 'd Funnel \<Rightarrow> 'w \<Rightarrow> error option outcome \<times> bool chan \<times> 'w" where
  "Funnel_Stop Close f w =
     (case chan_send (funnel_stop f) True of
        Blocks \<Rightarrow> (Blocks, funnel_stop f, w)
      | Panics msg \<Rightarrow> (Panics msg, funnel_stop f, w)
      | Returns c \<Rightarrow>
          (case funnel_To f of
             None \<Rightarrow> (Panics ''invalid memory address or nil pointer dereference'', c, w)
           | Some to \<Rightarrow>
               (case Close to w of
                  (Some err, w1) \<Rightarrow> (Returns (Some err), c, w1)
                | (None, w1) \<Rightarrow>
                    (case close_each Close (funnel_From f) w1 of
                       (err, w2) \<Rightarrow> (Returns err, c, w2)))))"

text \<open>
  \<^verbatim>\<open>Funnel.Connect\<close> starts one forwarding goroutine for each device of \<^verbatim>\<open>f.From\<close>. A
  goroutine stands at its \<^verbatim>\<open>select\<close>, at the send of an event it has received, at the
  send \<^verbatim>\<open>f.stop <- true\<close> after it has received from \<^verbatim>\<open>f.stop\<close>, or after its
  \<^verbatim>\<open>return\<close>. The event channels are left to the environment: it decides when the event
  case of a \<^verbatim>\<open>select\<close> is taken and when the send of the event completes or panics. The
  state is the stop channel and the places of the goroutines, nothing else.
\<close>

datatype funnel_pc = AtSelect | Forwarding | Resending | Returned | Panicked

record funnel_state =
  stop_slot :: "bool chan"
  goroutines :: "funnel_pc list"

datatype funnel_action =
    StopSend
  | SelectEvent nat
  | EventSent nat
  | EventSendPanics nat
  | SelectStopToken nat
  | Resend nat

fun Funnel_step :: "funnel_action \<Rightarrow> funnel_state \<Rightarrow> funnel_state" where
  "Funnel_step StopSend s =
     (case chan_send (stop_slot s) True of
        Returns c \<Rightarrow> s\<lparr>stop_slot := c\<rparr>
      | Blocks \<Rightarrow> s
      | Panics msg \<Rightarrow> s)"
| "Funnel_step (SelectEvent i) s =
     (if i < length (goroutines s) \<and> goroutines s ! i = AtSelect
      then s\<lparr>goroutines := (goroutines s)[i := Forwarding]\<rparr> else s)"
| "Funnel_step (EventSent i) s =
     (if i < length (goroutines s) \<and> goroutines s ! i = Forwarding
      then s\<lparr>goroutines := (goroutines s)[i := AtSelect]\<rparr> else s)"
| "Funnel_step (EventSendPanics i) s =
     (if i < length (goroutines s) \<and> goroutines s ! i = Forwarding
      then s\<lparr>goroutines := (goroutines s)[i := Panicked]\<rparr> else s)"
| "Funnel_step (SelectStopToken i) s =
     (if i < length (goroutines s) \<and> goroutines s ! i = AtSelect then
        (case chan_recv (stop_slot s) of
           Returns (v, c) \<Rightarrow>
             s\<lparr>stop_slot := c, goroutines := (goroutines s)[i := Resending]\<rparr>
         | Blocks \<Rightarrow> s
         | Panics msg \<Rightarrow> s)
      else s)"
| "Funnel_step (Resend i) s =
     (if i < length (goroutines s) \<and> goroutines s ! i = Resending then
        (case chan_send (stop_slot s) True of
           Returns c \<Rightarrow>
             s\<lparr>stop_slot := c, goroutines := (goroutines s)[i := Returned]\<rparr>
         | Blocks \<Rightarrow> s
         | Panics msg \<Rightarrow> s\<lparr>goroutines := (goroutines s)[i := Panicked]\<rparr>)
      else s)"

definition Funnel_run :: "funnel_action list \<Rightarrow> funnel_state \<Rightarrow> funnel_state" where
  "Funnel_run as s = fold Funnel_step as s"

text \<open>
  The state after \<^verbatim>\<open>Connect\<close> has started its \<open>N\<close> goroutines; the stop channel is the
  one that \<^verbatim>\<open>NewFunnel\<close> makes.
\<close>

definition Funnel_start :: "nat \<Rightarrow> funnel_state" where
  "Funnel_start N =
     \<lparr>stop_slot = Chan 1 [] False, goroutines = replicate N AtSelect\<rparr>"

subsection \<open>Chain\<close>

record 'd Chain =
  Devices :: "'d list"
  pipes :: "'d Pipe list"

text \<open>The value \<^verbatim>\<open>Chain{}\<close>: both slices are \<^verbatim>\<open>nil\<close>.\<close>

definition Chain_zero :: "'d Chain" where
  "Chain_zero = \<lparr>Devices = [], pipes = []\<rparr>"

text \<open>
  The \<^verbatim>\<open>for\<close> loop of \<^verbatim>\<open>NewChain\<close>, from index \<open>i\<close> on. Both indexings are in range
  there: \<open>1 \<le> i < length devices\<close> and \<open>length ps = length devices - 1\<close>.
\<close>

function NewChain_loop ::
  "('d, 'w) device_method \<Rightarrow> 'd list \<Rightarrow> nat \<Rightarrow> 'd Pipe list \<Rightarrow> 'w
     \<Rightarrow> 'd Chain \<times> error option \<times> 'w" where
  "NewChain_loop Open devices i ps w =
     (if i < length devices then
        (case NewPipe Open (devices ! (i - 1)) (devices ! i) w of
           (pipe, Some err, w') \<Rightarrow> (Chain_zero, Some err, w')
         | (pipe, None, w') \<Rightarrow> NewChain_loop Open devices (i + 1) (ps[i - 1 := pipe]) w')
      else (\<lparr>Devices = devices, pipes = ps\<rparr>, None, w))"
  by pat_completeness auto
termination
  by (relation "measure (\<lambda>(Open, devices, i, ps, w). length devices - i)") auto

text \<open>
  \<^verbatim>\<open>make([]Pipe, numDevices-1)\<close> panics at run time when the length is negative.
\<close>

definition NewChain ::
  "('d, 'w) device_method \<Rightarrow> 'd list \<Rightarrow> 'w \<Rightarrow> ('d Chain \<times> error option) outcome \<times> 'w" where
  "NewChain Open devices w =
     (let numDevices = int (length devices) in
      if numDevices - 1 < 0 then (Panics ''makeslice: len out of range'', w)
      else (case NewChain_loop Open devices 1 (replicate (nat (numDevices - 1)) Pipe_zero) w of
              (c, err, w') \<Rightarrow> (Returns (c, err), w')))"

text \<open>
  A sample of devices for concrete evaluations: a device is a number, the state is the
  set of the open devices, and opening a device in \<open>broken\<close> fails.
\<close>

definition sample_Open :: "nat set \<Rightarrow> (nat, nat set) device_method" where
  "sample_Open broken d w =
     (if d \<in> broken then (Some ''Invalid device ID'', w) else (None, insert d w))"

definition sample_Close :: "(nat, nat set) device_method" where
  "sample_Close d w = (None, w - {d})"


section \<open>Invariants and schedules\<close>

text \<open>The message that \<^verbatim>\<open>readEvent\<close> decodes from the frame \<open>x\<close>, with \<open>d\<close> for data2.\<close>

definition decoded :: "int \<Rightarrow> int \<Rightarrow> Message" where
  "decoded x d =
     \<lparr>Channel = (x AND 255) AND 15, Command = (x AND 255) AND 240,
      Data1 = drop_bit 8 x AND 255, Data2 = d AND 255\<rparr>"





text \<open>
  A router has one goroutine for each event it has taken from the source channel, and a
  destination has been given the events of the goroutines that have passed it.
\<close>

definition router_inv :: "nat \<Rightarrow> 'e router_state \<Rightarrow> bool" where
  "router_inv N s \<longleftrightarrow>
     length (dests s) = N \<and> length (dest_consumed s) = N
     \<and> source_sent s = map event (tasks s) @ chan_buf (source s)
     \<and> list_all (\<lambda>j. mset (given s j) = mset (passed j (tasks s))) [0..<N]"

text \<open>
  A destination channel of a router: a channel of capacity \<open>n\<close> that is not over its
  capacity.
\<close>

definition bounded_dest :: "nat \<Rightarrow> 'e chan \<Rightarrow> bool" where
  "bounded_dest n c =
     (case c of NilChan \<Rightarrow> False | Chan k buf cl \<Rightarrow> k = n \<and> length buf \<le> n)"

text \<open>
  Goroutine \<open>i\<close> of a router sends to the destinations \<open>j\<close>, ..., \<open>N - 1\<close>, each send
  after a receive from the destination's channel.
\<close>

definition finish_schedule :: "nat \<Rightarrow> nat \<Rightarrow> nat \<Rightarrow> 'e router_action list" where
  "finish_schedule i j N =
     concat (map (\<lambda>j'. [RDestinationReceive j', TaskSend i]) [j..<N])"

text \<open>
  Tokens are conserved: the tokens in the slot and in the hands of the goroutines (those
  that have taken one and not yet put it back) are \<open>m\<close> together; the slot holds at most
  one, and it is never closed.
\<close>

definition funnel_inv :: "nat \<Rightarrow> nat \<Rightarrow> funnel_state \<Rightarrow> bool" where
  "funnel_inv N m s \<longleftrightarrow>
     length (goroutines s) = N
     \<and> (stop_slot s = Chan 1 [] False \<or> stop_slot s = Chan 1 [True] False)
     \<and> length (chan_buf (stop_slot s)) + count_list (goroutines s) Resending = m"

text \<open>Before any stop signal, no goroutine has taken a token or returned.\<close>

definition idle_inv :: "funnel_state \<Rightarrow> bool" where
  "idle_inv s \<longleftrightarrow>
     stop_slot s = Chan 1 [] False
     \<and> list_all (\<lambda>g. g = AtSelect \<or> g = Forwarding \<or> g = Panicked) (goroutines s)"

text \<open>
  One send of \<^verbatim>\<open>Stop\<close>, then the goroutines take the token and put it back one after
  the other.
\<close>

definition daisy_chain :: "nat \<Rightarrow> funnel_action list" where
  "daisy_chain N = StopSend # concat (map (\<lambda>i. [SelectStopToken i, Resend i]) [0..<N])"

text \<open>The state after the first \<open>m\<close> of \<open>N\<close> goroutines have passed the token on.\<close>

definition chained :: "nat \<Rightarrow> nat \<Rightarrow> funnel_state" where
  "chained N m =
     \<lparr>stop_slot = Chan 1 [True] False,
      goroutines = replicate m Returned @ replicate (N - m) AtSelect\<rparr>"

chapter \<open>Properties\<close>

section \<open>Channel operations\<close>

lemma chan_send_Returns:
  "chan_send c v = Returns c' \<Longrightarrow>
     chan_buf c' = chan_buf c @ [v] \<and> \<not> chan_closed c \<and> \<not> chan_closed c'"
  by (cases c) (auto split: if_splits)

lemma chan_recv_Some:
  "chan_recv c = Returns (Some v, c') \<Longrightarrow>
     chan_buf c = v # chan_buf c' \<and> chan_closed c' = chan_closed c"
  by (cases c rule: chan_recv.cases) (auto split: if_splits)

lemma chan_recv_None:
  "chan_recv c = Returns (None, c') \<Longrightarrow> chan_buf c = [] \<and> chan_closed c \<and> c' = c"
  by (cases c rule: chan_recv.cases) (auto split: if_splits)

lemma chan_close_Returns:
  "chan_close c = Returns c' \<Longrightarrow> chan_buf c' = chan_buf c \<and> chan_closed c' \<and> \<not> chan_closed c"
  by (cases c) (auto split: if_splits)

section \<open>Classification of a frame\<close>

text \<open>The cases of the \<^verbatim>\<open>switch\<close>, for distinct command constants.\<close>

lemma classify_NOTE_ON:
  "Command m = NOTE_ON k \<Longrightarrow> classify k names m = NoteOn (Channel m) (Data1 m) (Data2 m)"
  by (simp add: classify_def)

lemma classify_NOTE_OFF:
  "Command m = NOTE_OFF k \<Longrightarrow> NOTE_OFF k \<noteq> NOTE_ON k
     \<Longrightarrow> classify k names m = NoteOff (Channel m) (Data1 m) 0"
  by (simp add: classify_def)

lemma classify_CONTROL_CHANGE:
  "Command m = CONTROL_CHANGE k \<Longrightarrow> CONTROL_CHANGE k \<noteq> NOTE_ON k
     \<Longrightarrow> CONTROL_CHANGE k \<noteq> NOTE_OFF k
     \<Longrightarrow> classify k names m =
         ControlChange (Channel m) (Data1 m) (Data2 m)
           (case names (Data1 m) of Some n \<Rightarrow> n | None \<Rightarrow> ''Unknown'')"
  by (simp add: classify_def)

lemma classify_other:
  "Command m \<noteq> NOTE_ON k \<Longrightarrow> Command m \<noteq> NOTE_OFF k \<Longrightarrow> Command m \<noteq> CONTROL_CHANGE k
     \<Longrightarrow> classify k names m = RawMessage m"
  by (simp add: classify_def)

text \<open>
  C1. The classification table says that a note-on frame with velocity 0 is published as
  \<^verbatim>\<open>NoteOff{channel, key, 0}\<close>. The \<^verbatim>\<open>switch\<close> tests the command only: the frame
  \<^verbatim>\<open>0x003C93\<close> (note-on, channel 3, key 60, velocity 0), read by an open port that is not
  stopped and has data, is published as \<^verbatim>\<open>NoteOn{3, 60, 0}\<close>.
\<close>

theorem note_on_zero_velocity_stays_NoteOn:
  "fst (Run_iteration midi_commands sample_names
          \<lparr>isOpen = True, port_id = 0, stream = Some 1, events = Chan 8 [] False,
           stop = Chan 1 [] False\<rparr>
          (1, None) 1 0x003C93)
     = Published (NoteOn 3 60 0)"
  by (simp add: Run_iteration_def poll_def SystemPort_IsOpen_def readEvent_def classify_def
      midi_commands_def Let_def)

section \<open>readEvent\<close>

text \<open>
  C10. \<^verbatim>\<open>readEvent\<close> returns a \<^verbatim>\<open>nil\<close> error for every input, so no iteration of \<^verbatim>\<open>Run\<close>
  takes the retry branch. When the transport has read no event, \<^verbatim>\<open>readEvent\<close> returns
  the all-zero message with a \<^verbatim>\<open>nil\<close> error, and \<^verbatim>\<open>Run\<close> publishes it as a raw message
  (command 0 is none of the three command constants, which are not zero).
\<close>

theorem readEvent_never_fails:
  "snd (readEvent eventsRead message) = None
   \<and> fst (Run_iteration k names s pm_poll eventsRead message) \<noteq> Retried
   \<and> (eventsRead \<le> 0 \<longrightarrow>
        readEvent eventsRead message
          = (\<lparr>Channel = 0, Command = 0, Data1 = 0, Data2 = 0\<rparr>, None))
   \<and> (eventsRead \<le> 0 \<and> NOTE_ON k \<noteq> 0 \<and> NOTE_OFF k \<noteq> 0 \<and> CONTROL_CHANGE k \<noteq> 0
        \<and> chan_recv (stop s) = Blocks \<and> poll s pm_poll = (True, None)
        \<and> chan_send (events s) (RawMessage \<lparr>Channel = 0, Command = 0, Data1 = 0, Data2 = 0\<rparr>)
            = Returns c \<longrightarrow>
        Run_iteration k names s pm_poll eventsRead message
          = (Published (RawMessage \<lparr>Channel = 0, Command = 0, Data1 = 0, Data2 = 0\<rparr>),
             s\<lparr>events := c\<rparr>))"
proof -
  have nil: "snd (readEvent eventsRead message) = None"
    by (simp add: readEvent_def Let_def)
  have no_retry: "fst (Run_iteration k names s pm_poll eventsRead message) \<noteq> Retried"
    using nil
    by (auto simp add: Run_iteration_def Let_def
        split: outcome.splits prod.splits option.splits if_splits)
  have zero: "eventsRead \<le> 0 \<Longrightarrow> readEvent eventsRead message
          = (\<lparr>Channel = 0, Command = 0, Data1 = 0, Data2 = 0\<rparr>, None)"
    by (simp add: readEvent_def)
  have publish: "Run_iteration k names s pm_poll eventsRead message
          = (Published (RawMessage \<lparr>Channel = 0, Command = 0, Data1 = 0, Data2 = 0\<rparr>),
             s\<lparr>events := c\<rparr>)"
    if "eventsRead \<le> 0" "NOTE_ON k \<noteq> 0" "NOTE_OFF k \<noteq> 0" "CONTROL_CHANGE k \<noteq> 0"
      "chan_recv (stop s) = Blocks" "poll s pm_poll = (True, None)"
      "chan_send (events s) (RawMessage \<lparr>Channel = 0, Command = 0, Data1 = 0, Data2 = 0\<rparr>)
            = Returns c"
    using that by (simp add: Run_iteration_def zero classify_def Let_def)
  show ?thesis
    using nil no_retry zero publish by blast
qed

text \<open>
  The theorem at an open port with data announced and no event read, for the command
  constants of the MIDI standard.
\<close>

theorem readEvent_never_fails_witness:
  "readEvent 0 0x643C90 = (\<lparr>Channel = 0, Command = 0, Data1 = 0, Data2 = 0\<rparr>, None)
   \<and> Run_iteration midi_commands sample_names
        \<lparr>isOpen = True, port_id = 0, stream = Some 1, events = Chan 8 [] False,
         stop = Chan 1 [] False\<rparr> (1, None) 0 0x643C90
      = (Published (RawMessage \<lparr>Channel = 0, Command = 0, Data1 = 0, Data2 = 0\<rparr>),
         \<lparr>isOpen = True, port_id = 0, stream = Some 1,
          events = Chan 8 [RawMessage \<lparr>Channel = 0, Command = 0, Data1 = 0, Data2 = 0\<rparr>] False,
          stop = Chan 1 [] False\<rparr>)"
  using readEvent_never_fails [of 0 "0x643C90" midi_commands sample_names
      "\<lparr>isOpen = True, port_id = 0, stream = Some 1, events = Chan 8 [] False,
        stop = Chan 1 [] False\<rparr>" "(1, None)"
      "Chan 8 [RawMessage \<lparr>Channel = 0, Command = 0, Data1 = 0, Data2 = 0\<rparr>] False"]
  by (simp add: midi_commands_def poll_def SystemPort_IsOpen_def)

section \<open>Re-encoding a classified frame\<close>

lemma byte_mask: "(255::int) = mask 8"
  by (simp add: mask_eq_exp_minus_1)

lemma low_nibble_mask: "(15::int) = mask 4"
  by (simp add: mask_eq_exp_minus_1)

lemma high_nibble_mask: "(240::int) = push_bit 4 (mask 4)"
  by (simp add: mask_eq_exp_minus_1 push_bit_eq_mult)

lemmas masks = byte_mask low_nibble_mask high_nibble_mask

text \<open>The three bytes of the packed value of a decoded message.\<close>

lemma packed_status:
  "((((x::int) AND 255) AND 240 OR (x AND 255) AND 15) OR
      push_bit 8 (drop_bit 8 x AND 255) OR push_bit 16 (d AND 255)) AND 255 = x AND 255"
  unfolding masks by (rule bit_eqI) (auto simp add: bit_simps)

lemma packed_data1:
  "drop_bit 8 ((((x::int) AND 255) AND 240 OR (x AND 255) AND 15) OR
      push_bit 8 (drop_bit 8 x AND 255) OR push_bit 16 (d AND 255)) AND 255
   = drop_bit 8 x AND 255"
  unfolding masks by (rule bit_eqI) (auto simp add: bit_simps)

lemma packed_data2:
  "drop_bit 16 ((((x::int) AND 255) AND 240 OR (x AND 255) AND 15) OR
      push_bit 8 (drop_bit 8 x AND 255) OR push_bit 16 (d AND 255)) AND 255
   = d AND 255"
  unfolding masks by (rule bit_eqI) (auto simp add: bit_simps)

lemma readEvent_decoded: "0 < n \<Longrightarrow> fst (readEvent n x) = decoded x (drop_bit 16 x)"
  by (simp only: readEvent_def decoded_def Let_def if_True fst_conv Message.simps)

lemma frame_bytes_decoded:
  "frame_bytes (Message_ToRawMessage (decoded x d))
     = (x AND 255, drop_bit 8 x AND 255, d AND 255)"
  by (simp only: frame_bytes_def Message_ToRawMessage_def decoded_def Message.simps
        packed_status packed_data1 packed_data2)

text \<open>
  C2, as stated, fails. The frame \<^verbatim>\<open>0x403C80\<close> is a note-off (not a note-on) with
  velocity 64; it is classified as \<^verbatim>\<open>NoteOff{0, 60, 0}\<close>, and the re-encoded frame has
  data2 = 0 where the frame read has data2 = 64.
\<close>

theorem roundtrip_note_off_counterexample:
  "Command (fst (readEvent 1 0x403C80)) \<noteq> NOTE_ON midi_commands
   \<and> frame_bytes (ToRawMessage midi_commands
        (classify midi_commands sample_names (fst (readEvent 1 0x403C80))))
      \<noteq> frame_bytes 0x403C80"
  by (simp add: classify_def readEvent_def midi_commands_def frame_bytes_def
      Message_ToRawMessage_def)

text \<open>
  The velocity of a note-off frame is lost in the event, whatever the encoding of events
  is: two frames with different bytes are classified as the same event.
\<close>

lemma note_off_velocity_is_lost:
  "classify midi_commands names (fst (readEvent 1 0x403C80))
     = classify midi_commands names (fst (readEvent 1 0x003C80))
   \<and> frame_bytes 0x403C80 \<noteq> frame_bytes 0x003C80"
  by (simp add: classify_def readEvent_def midi_commands_def frame_bytes_def)

text \<open>
  C2, amended. For every frame read that is not a note-on with velocity 0, the
  re-encoded event has the status and the data1 of the frame; it has the data2 of the
  frame too, unless the frame is a note-off: then its data2 is 0.
\<close>

theorem roundtrip_except_note_off_velocity:
  assumes "0 < eventsRead"
    and "m = fst (readEvent eventsRead message)"
    and "Command m = NOTE_ON k \<longrightarrow> Data2 m \<noteq> 0"
  shows "frame_bytes (ToRawMessage k (classify k names m))
     = (case frame_bytes message of
          (status, data1, data2) \<Rightarrow>
            (status, data1,
             if Command m = NOTE_OFF k \<and> Command m \<noteq> NOTE_ON k then 0 else data2))"
proof -
  have m: "m = decoded message (drop_bit 16 message)"
    using assms(1,2) by (simp only: readEvent_decoded)
  have zero: "m\<lparr>Data2 := 0\<rparr> = decoded message 0"
    unfolding m decoded_def by simp
  have full: "frame_bytes (Message_ToRawMessage m) = frame_bytes message"
    unfolding m frame_bytes_decoded by (simp add: frame_bytes_def)
  have off: "frame_bytes (Message_ToRawMessage (m\<lparr>Data2 := 0\<rparr>))
      = (message AND 255, drop_bit 8 message AND 255, 0)"
    unfolding zero frame_bytes_decoded by simp
  have note_on: "ToRawMessage k (classify k names m) = Message_ToRawMessage m"
    if "Command m = NOTE_ON k"
    using that by (simp add: classify_def Message_ToRawMessage_def)
  have note_off: "ToRawMessage k (classify k names m) = Message_ToRawMessage (m\<lparr>Data2 := 0\<rparr>)"
    if "Command m \<noteq> NOTE_ON k" "Command m = NOTE_OFF k"
    using that by (simp add: classify_def Message_ToRawMessage_def)
  have other: "ToRawMessage k (classify k names m) = Message_ToRawMessage m"
    if "Command m \<noteq> NOTE_ON k" "Command m \<noteq> NOTE_OFF k"
    using that by (simp add: classify_def Let_def Message_ToRawMessage_def)
  show ?thesis
  proof (cases "Command m = NOTE_ON k")
    case True
    then show ?thesis using note_on full by (simp add: frame_bytes_def)
  next
    case False
    then show ?thesis
      using note_off other full off
      by (cases "Command m = NOTE_OFF k") (simp_all add: frame_bytes_def)
  qed
qed

text \<open>
  The amended claim at a note-off frame with velocity 64 and at a note-on frame with
  velocity 100.
\<close>

theorem roundtrip_except_note_off_velocity_witness:
  "frame_bytes (ToRawMessage midi_commands
      (classify midi_commands sample_names (fst (readEvent 1 0x403C80)))) = (0x80, 0x3C, 0)
   \<and> frame_bytes (ToRawMessage midi_commands
      (classify midi_commands sample_names (fst (readEvent 1 0x643C90)))) = (0x90, 0x3C, 0x64)"
  using roundtrip_except_note_off_velocity
      [of 1 "fst (readEvent 1 0x403C80)" "0x403C80" midi_commands sample_names]
    roundtrip_except_note_off_velocity
      [of 1 "fst (readEvent 1 0x643C90)" "0x643C90" midi_commands sample_names]
  by (simp add: readEvent_def midi_commands_def frame_bytes_def)

section \<open>Closing a port\<close>

text \<open>\<^verbatim>\<open>SystemPort.Close\<close> on a closed port returns \<^verbatim>\<open>nil\<close> and does nothing.\<close>

lemma SystemPort_Close_closed:
  "\<not> isOpen s \<Longrightarrow> SystemPort_Close errorText pm_close s = (Returns None, s, [])"
  by (simp add: SystemPort_Close_def)

text \<open>
  C4. Closing a closed port is to return \<^verbatim>\<open>nil\<close> without a panic, for every
  implementation of \<^verbatim>\<open>Port\<close>. \<^verbatim>\<open>SystemPort.Close\<close> tests \<^verbatim>\<open>isOpen\<close> first;
  \<^verbatim>\<open>FakePort.Close\<close> does not: a second \<^verbatim>\<open>Close\<close> of a fake port that was opened and
  closed panics on the closed channel (the port is closed by then), and a \<^verbatim>\<open>Close\<close> of a
  fake port that was never opened panics on the \<^verbatim>\<open>nil\<close> channel.
\<close>

theorem FakePort_Close_twice_panics:
  "fst (FakePort_Close (snd (FakePort_Close (snd (FakePort_Open 8
          \<lparr>fp_isOpen = False, fp_events = NilChan, IsInputPort = True\<rparr>)))))
     = Panics ''close of closed channel''
   \<and> FakePort_IsOpen (snd (FakePort_Close (snd (FakePort_Open 8
          \<lparr>fp_isOpen = False, fp_events = NilChan, IsInputPort = True\<rparr>)))) = False
   \<and> fst (FakePort_Close \<lparr>fp_isOpen = False, fp_events = NilChan, IsInputPort = True\<rparr>)
     = Panics ''close of nil channel''"
  by (simp add: FakePort_Close_def FakePort_Open_def FakePort_IsOpen_def)

text \<open>The pass in two steps is the pass of \<open>Run_iteration\<close>.\<close>

lemma Run_iteration_split:
  "Run_iteration k names s pm_poll eventsRead message
     = (case Run_receive k names s pm_poll eventsRead message of
          (Inl it, s') \<Rightarrow> (it, s')
        | (Inr e, s') \<Rightarrow> Run_publish s' e)"
  by (simp add: Run_iteration_def Run_receive_def Run_publish_def Let_def
      split: outcome.splits prod.splits option.splits)




section \<open>Construction of connectors\<close>

text \<open>
  C8. \<^verbatim>\<open>NewPipe\<close> opens \<^verbatim>\<open>From\<close>, then \<^verbatim>\<open>To\<close>. When the first open fails, it returns
  \<^verbatim>\<open>Pipe{}\<close> with the error and \<^verbatim>\<open>To\<close> is not opened. When the second open fails, it
  returns \<^verbatim>\<open>Pipe{}\<close> with the error, and the devices are left in the state that the two
  calls of \<^verbatim>\<open>Open\<close> have produced: \<^verbatim>\<open>From\<close> is not closed again.
\<close>

theorem NewPipe_no_rollback:
  "(Open from w = (Some err, w1) \<longrightarrow> NewPipe Open from to w = (Pipe_zero, Some err, w1))
   \<and> (Open from w = (None, w1) \<and> Open to w1 = (Some err, w2) \<longrightarrow>
        NewPipe Open from to w = (Pipe_zero, Some err, w2))
   \<and> (Open from w = (None, w1) \<and> Open to w1 = (None, w2) \<longrightarrow>
        NewPipe Open from to w
          = (\<lparr>From = Some from, To = Some to, pipe_stop = Chan 1 [] False\<rparr>, None, w2))"
  by (simp add: NewPipe_def)

text \<open>
  The theorem at two sample devices: when device 2 cannot be opened, device 1 stays in
  the set of the open devices; when device 1 cannot be opened, nothing is opened.
\<close>

theorem NewPipe_no_rollback_witness:
  "NewPipe (sample_Open {2}) 1 2 {} = (Pipe_zero, Some ''Invalid device ID'', {1})
   \<and> NewPipe (sample_Open {1}) 1 2 {} = (Pipe_zero, Some ''Invalid device ID'', {})"
  using NewPipe_no_rollback [of "sample_Open {2}" 1 "{}" "''Invalid device ID''" "{1}" 2 "{1}"]
    NewPipe_no_rollback [of "sample_Open {1}" 1 "{}" "''Invalid device ID''" "{}" 2 "{}"]
  by (simp add: sample_Open_def)

text \<open>
  C9. \<^verbatim>\<open>NewChain\<close> without a device panics, in the allocation of a slice of length -1
  and before any device is touched; with one device it returns a chain of that device
  with no pipe and a \<^verbatim>\<open>nil\<close> error, and opens nothing.
\<close>

theorem NewChain_needs_a_device:
  "NewChain Open [] w = (Panics ''makeslice: len out of range'', w)
   \<and> NewChain Open [d] w = (Returns (\<lparr>Devices = [d], pipes = []\<rparr>, None), w)"
  by (simp add: NewChain_def)

text \<open>With at least one device \<^verbatim>\<open>NewChain\<close> returns.\<close>

lemma NewChain_returns:
  "devices \<noteq> [] \<Longrightarrow> \<exists>r. fst (NewChain Open devices w) = Returns r"
  by (cases devices) (simp_all add: NewChain_def split: prod.splits)

section \<open>Pipe.Connect\<close>












section \<open>Router.Connect\<close>

text \<open>
  A step of a goroutine keeps its event; it changes the events that have passed a
  destination only at the destination of the send.
\<close>

lemma passed_update_same:
  "i < length ts \<Longrightarrow> event t' = event (ts ! i)
     \<Longrightarrow> (j < next_dest t') = (j < next_dest (ts ! i))
     \<Longrightarrow> passed j (ts[i := t']) = passed j ts"
  unfolding passed_def
  by (induction ts arbitrary: i) (auto split: nat.splits)

lemma passed_update_new:
  "i < length ts \<Longrightarrow> event t' = event (ts ! i)
     \<Longrightarrow> \<not> j < next_dest (ts ! i) \<Longrightarrow> j < next_dest t'
     \<Longrightarrow> mset (passed j (ts[i := t'])) = add_mset (event t') (mset (passed j ts))"
  unfolding passed_def
  by (induction ts arbitrary: i) (auto split: nat.splits)

lemma events_update:
  "i < length ts \<Longrightarrow> event t' = event (ts ! i) \<Longrightarrow> map event (ts[i := t']) = map event ts"
  by (induction ts arbitrary: i) (auto split: nat.splits)

lemma passed_append:
  "passed j (ts @ [\<lparr>event = e, next_dest = 0, crashed = False\<rparr>]) = passed j ts"
  by (simp add: passed_def)

lemma passed_all:
  "list_all (\<lambda>t. next_dest t = N) ts \<Longrightarrow> j < N \<Longrightarrow> passed j ts = map event ts"
  by (induction ts) (simp_all add: passed_def)

lemma passed_member:
  "i < length ts \<Longrightarrow> j < next_dest (ts ! i) \<Longrightarrow> event (ts ! i) \<in> set (passed j ts)"
proof -
  assume "i < length ts" "j < next_dest (ts ! i)"
  then have "ts ! i \<in> set (filter (\<lambda>t. j < next_dest t) ts)"
    by simp
  then have "event (ts ! i) \<in> event ` set (filter (\<lambda>t. j < next_dest t) ts)"
    by (rule imageI)
  then show ?thesis
    by (simp add: passed_def)
qed

lemma router_inv_given:
  "router_inv N s \<Longrightarrow> j < N \<Longrightarrow> mset (given s j) = mset (passed j (tasks s))"
  by (simp add: router_inv_def list_all_iff)

text \<open>What a destination has been given changes only by a send to that destination.\<close>

lemma given_cong:
  "dest_consumed s' ! j = dest_consumed s ! j \<Longrightarrow> dests s' ! j = dests s ! j
     \<Longrightarrow> given s' j = given s j"
  by (simp add: given_def)

lemma router_inv_TaskSend:
  assumes "router_inv N s"
  shows "router_inv N (Router_step (TaskSend i) s)"
proof (cases "i < length (tasks s) \<and> next_dest (tasks s ! i) < length (dests s)
    \<and> \<not> crashed (tasks s ! i)")
  case False
  then show ?thesis
    using assms by (auto simp add: Let_def)
next
  case True
  define t where "t = tasks s ! i"
  define j where "j = next_dest t"
  have i: "i < length (tasks s)" and j: "j < N"
    and len: "length (dests s) = N" "length (dest_consumed s) = N"
    and src: "source_sent s = map event (tasks s) @ chan_buf (source s)"
    using True assms by (simp_all add: t_def j_def router_inv_def)
  show ?thesis
  proof (cases "chan_send (dests s ! j) (event t)")
    case Blocks
    then show ?thesis
      using True assms by (simp add: Let_def t_def j_def)
  next
    case (Panics msg)
    let ?s' = "s\<lparr>tasks := (tasks s)[i := t\<lparr>crashed := True\<rparr>]\<rparr>"
    have step: "Router_step (TaskSend i) s = ?s'"
      using True Panics by (simp add: Let_def t_def [symmetric] j_def [symmetric])
    have "passed j' (tasks ?s') = passed j' (tasks s)" for j'
      using i by (simp add: passed_update_same t_def)
    moreover have "map event (tasks ?s') = map event (tasks s)"
      using i by (simp add: events_update t_def)
    moreover have "given ?s' j' = given s j'" for j'
      by (simp add: given_def)
    ultimately show ?thesis
      unfolding step using assms by (simp add: router_inv_def)
  next
    case (Returns c)
    let ?t' = "t\<lparr>next_dest := j + 1\<rparr>"
    let ?s' = "s\<lparr>dests := (dests s)[j := c], tasks := (tasks s)[i := ?t']\<rparr>"
    have step: "Router_step (TaskSend i) s = ?s'"
      using True Returns by (simp add: Let_def t_def [symmetric] j_def [symmetric])
    have buf: "chan_buf c = chan_buf (dests s ! j) @ [event t]"
      using Returns by (simp add: chan_send_Returns)
    have ev: "map event (tasks ?s') = map event (tasks s)"
      using i by (simp add: events_update t_def)
    have "passed j' ((tasks s)[i := ?t']) = passed j' (tasks s)" if "j' \<noteq> j" for j'
      using i that by (intro passed_update_same) (auto simp add: t_def j_def)
    then have other: "passed j' (tasks ?s') = passed j' (tasks s)" if "j' \<noteq> j" for j'
      using that by simp
    have this_one: "mset (passed j (tasks ?s')) = add_mset (event t) (mset (passed j (tasks s)))"
      using i passed_update_new [of i "tasks s" ?t' j] by (simp add: t_def j_def)
    have "mset (given ?s' j') = mset (passed j' (tasks ?s'))" if "j' < N" for j'
    proof (cases "j' = j")
      case True
      have "given ?s' j = given s j @ [event t]"
        using j len buf by (simp add: given_def)
      then show ?thesis
        unfolding True using this_one router_inv_given [OF assms j] by simp
    next
      case False
      have "given ?s' j' = given s j'"
        using False by (simp add: given_def)
      then show ?thesis
        using False other router_inv_given [OF assms that] by simp
    qed
    then show ?thesis
      unfolding step using ev len src by (simp add: router_inv_def list_all_iff)
  qed
qed

lemma router_inv_receive:
  assumes "router_inv N s"
  shows "router_inv N (Router_step (RDestinationReceive j) s)"
proof (cases "j < length (dests s)")
  case False
  then show ?thesis using assms by simp
next
  case True
  have len: "length (dests s) = N" "length (dest_consumed s) = N"
    using assms by (simp_all add: router_inv_def)
  show ?thesis
  proof (cases "chan_recv (dests s ! j)")
    case Blocks
    then show ?thesis using True assms by simp
  next
    case (Panics msg)
    then show ?thesis using True assms by simp
  next
    case (Returns r)
    obtain v c where r: "r = (v, c)" by (cases r)
    show ?thesis
    proof (cases v)
      case None
      then show ?thesis using True assms Returns r by simp
    next
      case (Some e)
      let ?s' = "s\<lparr>dests := (dests s)[j := c],
          dest_consumed := (dest_consumed s)[j := dest_consumed s ! j @ [e]]\<rparr>"
      have step: "Router_step (RDestinationReceive j) s = ?s'"
        using True Returns r Some by simp
      have buf: "chan_buf (dests s ! j) = e # chan_buf c"
        using Returns r Some by (simp add: chan_recv_Some)
      have "given ?s' j' = given s j'" for j'
        using True len buf by (cases "j' = j") (simp_all add: given_def)
      then show ?thesis
        unfolding step using assms by (simp add: router_inv_def)
    qed
  qed
qed

lemma router_inv_close:
  assumes "router_inv N s"
  shows "router_inv N (Router_step (RDestinationClose j) s)"
proof (cases "j < length (dests s)")
  case False
  then show ?thesis using assms by simp
next
  case True
  show ?thesis
  proof (cases "chan_close (dests s ! j)")
    case Blocks
    then show ?thesis using True assms by simp
  next
    case (Panics msg)
    then show ?thesis using True assms by simp
  next
    case (Returns c)
    let ?s' = "s\<lparr>dests := (dests s)[j := c]\<rparr>"
    have step: "Router_step (RDestinationClose j) s = ?s'"
      using True Returns by simp
    have buf: "chan_buf c = chan_buf (dests s ! j)"
      using Returns by (simp add: chan_close_Returns)
    have "given ?s' j' = given s j'" for j'
      using True buf by (cases "j' = j") (simp_all add: given_def)
    then show ?thesis
      unfolding step using assms by (simp add: router_inv_def)
  qed
qed

lemma given_other:
  "dests s' = dests s \<Longrightarrow> dest_consumed s' = dest_consumed s \<Longrightarrow> given s' = given s"
  by (rule ext) (simp add: given_def)

lemma router_inv_step: "router_inv N s \<Longrightarrow> router_inv N (Router_step a s)"
proof (cases a)
  case (TaskSend i)
  assume "router_inv N s"
  then show ?thesis
    unfolding TaskSend by (rule router_inv_TaskSend)
next
  case (RDestinationReceive j)
  assume "router_inv N s"
  then show ?thesis
    unfolding RDestinationReceive by (rule router_inv_receive)
next
  case (RDestinationClose j)
  assume "router_inv N s"
  then show ?thesis
    unfolding RDestinationClose by (rule router_inv_close)
next
  case RouterInput
  assume "router_inv N s"
  then show ?thesis
    unfolding RouterInput
    by (auto simp add: router_inv_def passed_append given_def
        dest!: chan_recv_Some chan_recv_None split: outcome.splits option.splits)
next
  case (RSourceSend e)
  assume "router_inv N s"
  then show ?thesis
    unfolding RSourceSend
    by (auto simp add: router_inv_def given_def dest!: chan_send_Returns split: outcome.splits)
next
  case RSourceClose
  assume "router_inv N s"
  then show ?thesis
    unfolding RSourceClose
    by (auto simp add: router_inv_def given_def dest!: chan_close_Returns split: outcome.splits)
qed (auto simp add: router_inv_def given_def split: outcome.splits option.splits)

lemma router_inv_run: "router_inv N s \<Longrightarrow> router_inv N (Router_run as s)"
  unfolding Router_run_def
  by (induction as arbitrary: s) (simp_all add: router_inv_step)

lemma router_inv_start: "router_inv N (Router_start N n)"
  by (simp add: router_inv_def Router_start_def passed_def given_def list_all_iff)

lemma bounded_send: "bounded_dest n c \<Longrightarrow> chan_send c v = Returns c' \<Longrightarrow> bounded_dest n c'"
  by (cases c) (auto simp add: bounded_dest_def split: if_splits)

lemma bounded_recv: "bounded_dest n c \<Longrightarrow> chan_recv c = Returns (v, c') \<Longrightarrow> bounded_dest n c'"
  by (cases c rule: chan_recv.cases) (auto simp add: bounded_dest_def split: if_splits)

lemma bounded_close: "bounded_dest n c \<Longrightarrow> chan_close c = Returns c' \<Longrightarrow> bounded_dest n c'"
  by (cases c) (auto simp add: bounded_dest_def split: if_splits)

lemma bounded_step:
  "list_all (bounded_dest n) (dests s) \<Longrightarrow> list_all (bounded_dest n) (dests (Router_step a s))"
proof (cases a)
  case (TaskSend i)
  assume "list_all (bounded_dest n) (dests s)"
  then show ?thesis
    unfolding TaskSend
    by (auto simp add: Let_def list_all_length nth_list_update
        intro: bounded_send split: outcome.splits)
next
  case (RDestinationReceive j)
  assume "list_all (bounded_dest n) (dests s)"
  then show ?thesis
    unfolding RDestinationReceive
    by (auto simp add: list_all_length nth_list_update
        intro: bounded_recv split: outcome.splits option.splits)
next
  case (RDestinationClose j)
  assume "list_all (bounded_dest n) (dests s)"
  then show ?thesis
    unfolding RDestinationClose
    by (auto simp add: list_all_length nth_list_update
        intro: bounded_close split: outcome.splits)
qed (auto split: outcome.splits option.splits)

lemma bounded_run:
  "list_all (bounded_dest n) (dests s) \<Longrightarrow> list_all (bounded_dest n) (dests (Router_run as s))"
  unfolding Router_run_def
  by (induction as arbitrary: s) (simp_all add: bounded_step)

lemma bounded_start: "list_all (bounded_dest n) (dests (Router_start N n))"
  by (simp add: Router_start_def list_all_length bounded_dest_def)

text \<open>One receive from destination \<open>j\<close> and the send of goroutine \<open>i\<close> to it.\<close>

lemma finish_round:
  assumes "i < length (tasks s)" "next_dest (tasks s ! i) = j" "j < length (dests s)"
    "\<not> crashed (tasks s ! i)" "bounded_dest n (dests s ! j)" "\<not> chan_closed (dests s ! j)"
    "0 < n"
  shows "tasks (Router_run [RDestinationReceive j, TaskSend i] s)
           = (tasks s)[i := (tasks s ! i)\<lparr>next_dest := j + 1\<rparr>]
         \<and> length (dests (Router_run [RDestinationReceive j, TaskSend i] s)) = length (dests s)
         \<and> (\<forall>j'. j' \<noteq> j \<longrightarrow>
               dests (Router_run [RDestinationReceive j, TaskSend i] s) ! j' = dests s ! j')"
proof (cases "dests s ! j")
  case NilChan
  then show ?thesis using assms by (simp add: bounded_dest_def)
next
  case (Chan k buf cl)
  then have k: "k = n" "length buf \<le> n" "\<not> cl"
    using assms by (simp_all add: bounded_dest_def)
  show ?thesis
  proof (cases buf)
    case Nil
    then show ?thesis
      using assms Chan k by (simp add: Router_run_def Let_def)
  next
    case (Cons v rest)
    then show ?thesis
      using assms Chan k by (simp add: Router_run_def Let_def)
  qed
qed

lemma finish_all:
  assumes "i < length (tasks s)" "next_dest (tasks s ! i) = j" "j \<le> N" "length (dests s) = N"
    "\<not> crashed (tasks s ! i)" "0 < n"
    "\<forall>j'<N. j \<le> j' \<longrightarrow> bounded_dest n (dests s ! j') \<and> \<not> chan_closed (dests s ! j')"
  shows "tasks (Router_run (finish_schedule i j N) s)
           = (tasks s)[i := (tasks s ! i)\<lparr>next_dest := N\<rparr>]"
  using assms
proof (induction "N - j" arbitrary: j s)
  case 0
  then have "N = next_dest (tasks s ! i)"
    by simp
  then have "(tasks s)[i := (tasks s ! i)\<lparr>next_dest := N\<rparr>] = tasks s"
    by simp
  then show ?case
    using 0 by (simp add: finish_schedule_def Router_run_def)
next
  case (Suc d)
  then have j: "j < N" by simp
  define s1 where "s1 = Router_run [RDestinationReceive j, TaskSend i] s"
  have round: "tasks s1 = (tasks s)[i := (tasks s ! i)\<lparr>next_dest := j + 1\<rparr>]"
    "length (dests s1) = length (dests s)"
    "\<forall>j'. j' \<noteq> j \<longrightarrow> dests s1 ! j' = dests s ! j'"
    unfolding s1_def using finish_round [of i s j n] Suc.prems j by auto
  have split: "finish_schedule i j N
      = [RDestinationReceive j, TaskSend i] @ finish_schedule i (Suc j) N"
    using j by (simp add: finish_schedule_def upt_conv_Cons)
  have "Router_run (finish_schedule i j N) s = Router_run (finish_schedule i (Suc j) N) s1"
    unfolding split s1_def by (simp add: Router_run_def)
  moreover have "tasks (Router_run (finish_schedule i (Suc j) N) s1)
      = (tasks s1)[i := (tasks s1 ! i)\<lparr>next_dest := N\<rparr>]"
  proof (rule Suc.hyps(1))
    show "d = N - Suc j" using Suc.hyps(2) by simp
    show "i < length (tasks s1)" using Suc.prems round by simp
    show "next_dest (tasks s1 ! i) = Suc j" using Suc.prems round by simp
    show "Suc j \<le> N" using j by simp
    show "length (dests s1) = N" using Suc.prems round by simp
    show "\<not> crashed (tasks s1 ! i)" using Suc.prems round by simp
    show "0 < n" by fact
    show "\<forall>j'<N. Suc j \<le> j' \<longrightarrow> bounded_dest n (dests s1 ! j') \<and> \<not> chan_closed (dests s1 ! j')"
      using Suc.prems round by auto
  qed
  ultimately show ?case
    using round Suc.prems by simp
qed

lemma next_dest_step:
  "list_all (\<lambda>t. next_dest t \<le> length (dests s)) (tasks s) \<Longrightarrow>
     list_all (\<lambda>t. next_dest t \<le> length (dests (Router_step a s))) (tasks (Router_step a s))"
proof (cases a)
  case (TaskSend i)
  assume "list_all (\<lambda>t. next_dest t \<le> length (dests s)) (tasks s)"
  then show ?thesis
    unfolding TaskSend
    by (auto simp add: Let_def list_all_length nth_list_update split: outcome.splits)
qed (auto split: outcome.splits option.splits)

lemma next_dest_run:
  "list_all (\<lambda>t. next_dest t \<le> length (dests s)) (tasks s) \<Longrightarrow>
     list_all (\<lambda>t. next_dest t \<le> length (dests (Router_run as s))) (tasks (Router_run as s))"
  unfolding Router_run_def
  by (induction as arbitrary: s) (simp_all add: next_dest_step)

text \<open>
  C6. In every state that an execution of \<^verbatim>\<open>Router.Connect\<close> and its environment
  reaches: the main loop, when it takes an event out of the source channel, starts one
  goroutine for it, at the first destination, and does nothing else; the events sent
  into the source channel are the events of the goroutines, one
  goroutine for each event taken from the source and in the order of the receipts,
  followed by the events still in the source channel; every destination has been given
  (its receiver has taken, or its channel holds) the events of the goroutines that have
  passed it, once each; so when every goroutine has passed all \<open>N\<close> destinations, every
  destination has been given every event taken from the source, in some order. A
  goroutine that has not passed all destinations puts its event at the end of the
  channel of its next destination and moves on to the one after it, and does nothing
  else, as soon as that channel is open and has room. While the destination channels are open, a goroutine that is run with a
  receiver at each destination passes all destinations, and then every destination has
  been given its event.
\<close>

theorem Router_Connect_broadcast:
  "(let s = Router_run as (Router_start N n) in
      (\<forall>e c. running s \<and> chan_recv (source s) = Returns (Some e, c) \<longrightarrow>
         Router_step RouterInput s
           = s\<lparr>source := c,
               tasks := tasks s @ [\<lparr>event = e, next_dest = 0, crashed = False\<rparr>]\<rparr>)
    \<and> source_sent s = map event (tasks s) @ chan_buf (source s)
    \<and> (\<forall>j<N. mset (dest_consumed s ! j @ chan_buf (dests s ! j))
                = mset (passed j (tasks s)))
    \<and> (list_all (\<lambda>t. next_dest t = N) (tasks s) \<longrightarrow>
         (\<forall>j<N. mset (dest_consumed s ! j @ chan_buf (dests s ! j))
                   = mset (map event (tasks s))))
    \<and> (\<forall>i<length (tasks s). \<forall>c.
         next_dest (tasks s ! i) < N \<and> \<not> crashed (tasks s ! i)
         \<and> chan_send (dests s ! next_dest (tasks s ! i)) (event (tasks s ! i)) = Returns c \<longrightarrow>
           Router_step (TaskSend i) s
             = s\<lparr>dests := (dests s)[next_dest (tasks s ! i) := c],
                 tasks := (tasks s)
                   [i := (tasks s ! i)\<lparr>next_dest := next_dest (tasks s ! i) + 1\<rparr>]\<rparr>
           \<and> chan_buf c = chan_buf (dests s ! next_dest (tasks s ! i)) @ [event (tasks s ! i)])
    \<and> (\<forall>i<length (tasks s).
         \<not> crashed (tasks s ! i) \<and> 0 < n \<and> list_all (\<lambda>c. \<not> chan_closed c) (dests s) \<longrightarrow>
           (let s' = Router_run (finish_schedule i (next_dest (tasks s ! i)) N) s in
              next_dest (tasks s' ! i) = N
              \<and> (\<forall>j<N. event (tasks s ! i)
                         \<in> set (dest_consumed s' ! j @ chan_buf (dests s' ! j))))))"
proof -
  define s where "s = Router_run as (Router_start N n :: 'a router_state)"
  have inv: "router_inv N s"
    unfolding s_def by (rule router_inv_run) (rule router_inv_start)
  have len: "length (dests s) = N"
    using inv by (simp add: router_inv_def)
  have one: "source_sent s = map event (tasks s) @ chan_buf (source s)"
    using inv by (simp add: router_inv_def)
  have two: "\<forall>j<N. mset (dest_consumed s ! j @ chan_buf (dests s ! j))
      = mset (passed j (tasks s))"
    using router_inv_given [OF inv] by (simp add: given_def)
  have three: "\<forall>j<N. mset (dest_consumed s ! j @ chan_buf (dests s ! j))
      = mset (map event (tasks s))"
    if "list_all (\<lambda>t. next_dest t = N) (tasks s)"
    using two passed_all [OF that] by simp
  have zero: "Router_step RouterInput s
           = s\<lparr>source := c,
               tasks := tasks s @ [\<lparr>event = e, next_dest = 0, crashed = False\<rparr>]\<rparr>"
    if "running s" "chan_recv (source s) = Returns (Some e, c)" for e c
    using that by simp
  have four: "Router_step (TaskSend i) s
             = s\<lparr>dests := (dests s)[next_dest (tasks s ! i) := c],
                 tasks := (tasks s)
                   [i := (tasks s ! i)\<lparr>next_dest := next_dest (tasks s ! i) + 1\<rparr>]\<rparr>
           \<and> chan_buf c = chan_buf (dests s ! next_dest (tasks s ! i)) @ [event (tasks s ! i)]"
    if "i < length (tasks s)" "next_dest (tasks s ! i) < N" "\<not> crashed (tasks s ! i)"
      "chan_send (dests s ! next_dest (tasks s ! i)) (event (tasks s ! i)) = Returns c" for i c
    using that len chan_send_Returns [OF that(4)] by (simp add: Let_def)
  have five: "next_dest (tasks (Router_run (finish_schedule i (next_dest (tasks s ! i)) N) s) ! i)
        = N
      \<and> (\<forall>j<N. event (tasks s ! i)
            \<in> set (dest_consumed (Router_run (finish_schedule i (next_dest (tasks s ! i)) N) s) ! j
                  @ chan_buf (dests (Router_run (finish_schedule i (next_dest (tasks s ! i)) N) s) ! j)))"
    if "i < length (tasks s)" "\<not> crashed (tasks s ! i)" "0 < n"
      "list_all (\<lambda>c. \<not> chan_closed c) (dests s)" for i
  proof -
    define s' where "s' = Router_run (finish_schedule i (next_dest (tasks s ! i)) N) s"
    have tk: "tasks s' = (tasks s)[i := (tasks s ! i)\<lparr>next_dest := N\<rparr>]"
      unfolding s'_def
    proof (rule finish_all [where n = n])
      have "list_all (\<lambda>t. next_dest t \<le> length (dests s)) (tasks s)"
        unfolding s_def by (rule next_dest_run) (simp add: Router_start_def)
      then show "next_dest (tasks s ! i) \<le> N"
        using that(1) len by (simp add: list_all_length)
      have "list_all (bounded_dest n) (dests s)"
        unfolding s_def by (rule bounded_run) (rule bounded_start)
      then show "\<forall>j'<N. next_dest (tasks s ! i) \<le> j' \<longrightarrow>
          bounded_dest n (dests s ! j') \<and> \<not> chan_closed (dests s ! j')"
        using that(4) len by (simp add: list_all_length)
      show "length (dests s) = N" by (rule len)
    qed (use that in simp_all)
    have inv': "router_inv N s'"
      unfolding s'_def using inv by (rule router_inv_run)
    have i': "i < length (tasks s')" and nd: "next_dest (tasks s' ! i) = N"
      and ev: "event (tasks s' ! i) = event (tasks s ! i)"
      using tk that(1) by simp_all
    have "event (tasks s ! i) \<in> set (dest_consumed s' ! j @ chan_buf (dests s' ! j))"
      if "j < N" for j
    proof -
      have "event (tasks s' ! i) \<in> set (passed j (tasks s'))"
        using i' nd that by (intro passed_member) simp_all
      then have "event (tasks s ! i) \<in># mset (passed j (tasks s'))"
        using ev by simp
      then have "event (tasks s ! i) \<in># mset (given s' j)"
        using router_inv_given [OF inv' that] by simp
      then show ?thesis
        by (simp add: given_def)
    qed
    then show ?thesis
      using nd by (simp add: s'_def)
  qed
  show ?thesis
    unfolding Let_def s_def [symmetric]
    using zero one two three four five by blast
qed

text \<open>
  The theorem at a router with two destinations that takes the events 1 and 2 from its
  source and whose goroutines run interleaved, the second one first, with one receive at
  the first destination: the first destination is given 2 then 1, the second one 1 then
  2.
\<close>

theorem Router_Connect_broadcast_witness:
  "dests (Router_run
      [RSourceSend 1, RSourceSend 2, RouterInput, RouterInput, TaskSend 1, TaskSend 0,
       TaskSend 0, TaskSend 1, RDestinationReceive 0] (Router_start 2 4))
     = [Chan 4 [1] False, Chan 4 [1, 2 :: nat] False]
   \<and> dest_consumed (Router_run
      [RSourceSend 1, RSourceSend 2, RouterInput, RouterInput, TaskSend 1, TaskSend 0,
       TaskSend 0, TaskSend 1, RDestinationReceive 0] (Router_start 2 4)) = [[2 :: nat], []]
   \<and> map event (tasks (Router_run
      [RSourceSend 1, RSourceSend 2, RouterInput, RouterInput, TaskSend 1, TaskSend 0,
       TaskSend 0, TaskSend 1, RDestinationReceive 0] (Router_start 2 4))) = [1, 2 :: nat]"
  using Router_Connect_broadcast
    [of "[RSourceSend 1, RSourceSend 2, RouterInput, RouterInput, TaskSend 1, TaskSend 0,
          TaskSend 0, TaskSend 1, RDestinationReceive 0 :: nat router_action]" 2 4]
  by (simp add: Router_run_def Router_start_def numeral_2_eq_2)

section \<open>Funnel: the stop token\<close>

lemma count_list_update:
  "i < length xs \<Longrightarrow>
     count_list (xs[i := y]) a + (if xs ! i = a then 1 else 0)
       = count_list xs a + (if y = a then 1 else 0)"
proof (induction xs arbitrary: i)
  case Nil
  then show ?case by simp
next
  case (Cons x xs)
  show ?case
  proof (cases i)
    case 0
    then show ?thesis by simp
  next
    case (Suc k)
    then show ?thesis
      using Cons.IH [of k] Cons.prems by (auto split: if_splits)
  qed
qed

lemma count_list_update_other:
  "i < length xs \<Longrightarrow> xs ! i \<noteq> a \<Longrightarrow> y \<noteq> a \<Longrightarrow> count_list (xs[i := y]) a = count_list xs a"
  using count_list_update [of i xs y a] by simp

lemma count_list_update_add:
  "i < length xs \<Longrightarrow> xs ! i \<noteq> a \<Longrightarrow> count_list (xs[i := a]) a = Suc (count_list xs a)"
  using count_list_update [of i xs a a] by simp

lemma count_list_update_remove:
  "i < length xs \<Longrightarrow> xs ! i = a \<Longrightarrow> y \<noteq> a \<Longrightarrow> Suc (count_list (xs[i := y]) a) = count_list xs a"
  using count_list_update [of i xs y a] by simp

lemma count_list_pos: "i < length xs \<Longrightarrow> xs ! i = a \<Longrightarrow> 0 < count_list xs a"
  by (metis count_list_0_iff gr0I nth_mem)

lemma count_list_none: "a \<notin> set xs \<Longrightarrow> count_list xs a = 0"
  by (simp add: count_list_0_iff)

text \<open>A step of a goroutine that does not touch the stop channel.\<close>

lemma funnel_inv_move:
  assumes "funnel_inv N m s" "i < N" "goroutines s ! i = p" "p \<noteq> Resending" "q \<noteq> Resending"
  shows "funnel_inv N m (s\<lparr>goroutines := (goroutines s)[i := q]\<rparr>)"
proof -
  have len: "length (goroutines s) = N"
    using assms(1) by (simp add: funnel_inv_def)
  have "count_list ((goroutines s)[i := q]) Resending = count_list (goroutines s) Resending"
    using assms len by (intro count_list_update_other) simp_all
  then show ?thesis
    using assms(1) by (simp add: funnel_inv_def)
qed

lemma funnel_inv_take:
  assumes "funnel_inv N m s" "i < N" "goroutines s ! i = AtSelect"
    and "stop_slot s = Chan 1 [True] False"
  shows "funnel_inv N m (s\<lparr>stop_slot := Chan 1 [] False,
           goroutines := (goroutines s)[i := Resending]\<rparr>)"
proof -
  have len: "length (goroutines s) = N"
    using assms(1) by (simp add: funnel_inv_def)
  have "count_list ((goroutines s)[i := Resending]) Resending
          = Suc (count_list (goroutines s) Resending)"
    using assms len by (intro count_list_update_add) simp_all
  then show ?thesis
    using assms(1,4) by (simp add: funnel_inv_def)
qed

lemma funnel_inv_resend:
  assumes "funnel_inv N m s" "i < N" "goroutines s ! i = Resending"
    and "stop_slot s = Chan 1 [] False"
  shows "funnel_inv N m (s\<lparr>stop_slot := Chan 1 [True] False,
           goroutines := (goroutines s)[i := Returned]\<rparr>)"
proof -
  have len: "length (goroutines s) = N"
    using assms(1) by (simp add: funnel_inv_def)
  have "Suc (count_list ((goroutines s)[i := Returned]) Resending)
          = count_list (goroutines s) Resending"
    using assms len by (intro count_list_update_remove) simp_all
  then show ?thesis
    using assms(1,4) by (auto simp add: funnel_inv_def)
qed

text \<open>Every step but a send of \<^verbatim>\<open>Stop\<close> keeps the number of tokens.\<close>

lemma funnel_inv_step:
  assumes "funnel_inv N m s" "StopSend \<noteq> a"
  shows "funnel_inv N m (Funnel_step a s)"
proof -
  have len: "length (goroutines s) = N"
    using assms by (simp add: funnel_inv_def)
  have slot: "stop_slot s = Chan 1 [] False \<or> stop_slot s = Chan 1 [True] False"
    using assms by (simp add: funnel_inv_def)
  show ?thesis
  proof (cases a)
    case StopSend
    then show ?thesis
      using assms by simp
  next
    case (SelectEvent i)
    then show ?thesis
      using assms len funnel_inv_move [of N m s i AtSelect Forwarding] by simp
  next
    case (EventSent i)
    then show ?thesis
      using assms len funnel_inv_move [of N m s i Forwarding AtSelect] by simp
  next
    case (EventSendPanics i)
    then show ?thesis
      using assms len funnel_inv_move [of N m s i Forwarding Panicked] by simp
  next
    case (SelectStopToken i)
    then show ?thesis
      using assms len slot funnel_inv_take [of N m s i] by auto
  next
    case (Resend i)
    then show ?thesis
      using assms len slot funnel_inv_resend [of N m s i] by auto
  qed
qed

lemma funnel_inv_run:
  "funnel_inv N m s \<Longrightarrow> StopSend \<notin> set as \<Longrightarrow> funnel_inv N m (Funnel_run as s)"
  unfolding Funnel_run_def
  by (induction as arbitrary: s) (simp_all add: funnel_inv_step)

lemma funnel_inv_stopped: "funnel_inv N 1 (Funnel_step StopSend (Funnel_start N))"
  by (simp add: funnel_inv_def Funnel_start_def)

lemma idle_inv_step: "idle_inv s \<Longrightarrow> StopSend \<noteq> a \<Longrightarrow> idle_inv (Funnel_step a s)"
  by (cases a) (auto simp add: idle_inv_def list_all_length nth_list_update)

lemma idle_inv_run: "idle_inv s \<Longrightarrow> StopSend \<notin> set as \<Longrightarrow> idle_inv (Funnel_run as s)"
  unfolding Funnel_run_def
  by (induction as arbitrary: s) (simp_all add: idle_inv_step)

lemma idle_inv_start: "idle_inv (Funnel_start N)"
  by (simp add: idle_inv_def Funnel_start_def list_all_length)

text \<open>
  In a state with a well-formed slot, a goroutine gets to the re-send only by taking
  the token out of the slot, and returns only by putting a token into the slot.
\<close>

lemma becomes_Resending:
  assumes "stop_slot s = Chan 1 [] False \<or> stop_slot s = Chan 1 [True] False"
    and "i < length (goroutines s)"
    and "goroutines (Funnel_step a s) ! i = Resending" "goroutines s ! i \<noteq> Resending"
  shows "a = SelectStopToken i \<and> chan_buf (stop_slot s) = [True]
         \<and> chan_buf (stop_slot (Funnel_step a s)) = []"
  using assms
  by (cases a) (auto simp add: nth_list_update split: if_splits outcome.splits)

lemma becomes_Returned:
  assumes "stop_slot s = Chan 1 [] False \<or> stop_slot s = Chan 1 [True] False"
    and "i < length (goroutines s)"
    and "goroutines (Funnel_step a s) ! i = Returned" "goroutines s ! i \<noteq> Returned"
  shows "a = Resend i \<and> goroutines s ! i = Resending \<and> chan_buf (stop_slot s) = []
         \<and> chan_buf (stop_slot (Funnel_step a s)) = [True]"
  using assms
  by (cases a) (auto simp add: nth_list_update split: if_splits outcome.splits)

lemma replicate_step:
  "m < N \<Longrightarrow> (replicate m x @ replicate (N - m) y)[m := x]
     = replicate (Suc m) x @ replicate (N - Suc m) y"
proof -
  assume "m < N"
  then obtain k where k: "N - m = Suc k" "N - Suc m = k"
    by (cases "N - m") simp_all
  show ?thesis
    unfolding k by (simp add: list_update_append replicate_app_Cons_same)
qed

lemma replicate_mid: "m < N \<Longrightarrow> (replicate m x @ replicate (N - m) y) ! m = y"
  by (simp add: nth_append)

lemma chained_pass:
  assumes "m < N"
  shows "Funnel_run [SelectStopToken m, Resend m] (chained N m) = chained N (Suc m)"
proof -
  let ?g = "replicate m Returned @ replicate (N - m) AtSelect"
  have g1: "((?g)[m := Resending])[m := Returned]
      = replicate (Suc m) Returned @ replicate (N - Suc m) AtSelect"
    using assms replicate_step [of m N Returned AtSelect] by simp
  have g2: "?g ! m = AtSelect"
    using assms by (rule replicate_mid)
  show ?thesis
    using assms g1 g2 by (simp add: Funnel_run_def chained_def)
qed

lemma chained_all:
  "m \<le> N \<Longrightarrow>
     Funnel_run (concat (map (\<lambda>i. [SelectStopToken i, Resend i]) [0..<m])) (chained N 0)
       = chained N m"
proof (induction m)
  case 0
  then show ?case by (simp add: Funnel_run_def)
next
  case (Suc m)
  then have "Funnel_run (concat (map (\<lambda>i. [SelectStopToken i, Resend i]) [0..<m])) (chained N 0)
       = chained N m" by simp
  moreover have "Funnel_run [SelectStopToken m, Resend m] (chained N m) = chained N (Suc m)"
    using Suc.prems by (intro chained_pass) simp
  ultimately show ?case
    by (simp add: Funnel_run_def)
qed

lemma daisy_chain_all_return:
  "Funnel_run (daisy_chain N) (Funnel_start N) = chained N N"
proof -
  have "Funnel_step StopSend (Funnel_start N) = chained N 0"
    by (simp add: Funnel_start_def chained_def)
  then show ?thesis
    using chained_all [of N N] by (simp add: daisy_chain_def Funnel_run_def)
qed

text \<open>
  C7. \<^verbatim>\<open>Stop\<close> puts one token on the stop channel that \<^verbatim>\<open>NewFunnel\<close> has made. Without
  a call of \<^verbatim>\<open>Stop\<close> the slot stays empty and no goroutine takes a token or returns. In
  every state that the goroutines of \<^verbatim>\<open>Connect\<close> reach after the one send of \<^verbatim>\<open>Stop\<close>:
  there is exactly one token, in the slot or in the hands of one goroutine; a goroutine
  at its \<^verbatim>\<open>select\<close> that finds the token takes it out of the slot; the goroutine that
  holds the token finds the slot empty, so that its send completes at once, puts the
  token back and returns; a goroutine gets the token only by taking it out of the slot,
  and returns only by the send that puts a token into the empty slot; and the token is in
  the slot, for the next goroutine, whenever no goroutine holds it. In the execution
  where \<^verbatim>\<open>Stop\<close> sends its token and the goroutines take it and put it back one after
  the other, all \<open>N\<close> goroutines return and the token is left in the slot.
\<close>

theorem Funnel_stop_token_daisy_chain:
  "(funnel_stop f = Chan 1 [] False \<longrightarrow>
      fst (snd (Funnel_Stop Close f w)) = Chan 1 [True] False)
   \<and> (StopSend \<notin> set as \<longrightarrow>
        (let s0 = Funnel_run as (Funnel_start N) in
           chan_buf (stop_slot s0) = [] \<and> Resending \<notin> set (goroutines s0)
           \<and> Returned \<notin> set (goroutines s0))
        \<and> (let s = Funnel_run (StopSend # as) (Funnel_start N) in
             length (chan_buf (stop_slot s)) + count_list (goroutines s) Resending = 1
           \<and> (\<forall>i<N. goroutines s ! i = AtSelect \<and> chan_buf (stop_slot s) \<noteq> [] \<longrightarrow>
                 Funnel_step (SelectStopToken i) s
                   = \<lparr>stop_slot = Chan 1 [] False,
                      goroutines = (goroutines s)[i := Resending]\<rparr>)
           \<and> (\<forall>i<N. goroutines s ! i = Resending \<longrightarrow>
                 stop_slot s = Chan 1 [] False
                 \<and> Funnel_step (Resend i) s
                   = \<lparr>stop_slot = Chan 1 [True] False,
                      goroutines = (goroutines s)[i := Returned]\<rparr>)
           \<and> (\<forall>a. \<forall>i<N.
                 goroutines (Funnel_step a s) ! i = Resending \<and> goroutines s ! i \<noteq> Resending
                 \<longrightarrow> a = SelectStopToken i \<and> chan_buf (stop_slot s) = [True]
                      \<and> chan_buf (stop_slot (Funnel_step a s)) = [])
           \<and> (\<forall>a. \<forall>i<N.
                 goroutines (Funnel_step a s) ! i = Returned \<and> goroutines s ! i \<noteq> Returned
                 \<longrightarrow> a = Resend i \<and> goroutines s ! i = Resending
                      \<and> chan_buf (stop_slot s) = []
                      \<and> chan_buf (stop_slot (Funnel_step a s)) = [True])
           \<and> (Resending \<notin> set (goroutines s) \<longrightarrow> chan_buf (stop_slot s) = [True])))
   \<and> Funnel_run (daisy_chain N) (Funnel_start N)
        = \<lparr>stop_slot = Chan 1 [True] False, goroutines = replicate N Returned\<rparr>"
proof -
  have stop: "fst (snd (Funnel_Stop Close f w)) = Chan 1 [True] False"
    if "funnel_stop f = Chan 1 [] False"
    using that by (simp add: Funnel_Stop_def split: option.splits prod.splits)
  define s0 where "s0 = Funnel_run as (Funnel_start N)"
  have idle: "chan_buf (stop_slot s0) = [] \<and> Resending \<notin> set (goroutines s0)
      \<and> Returned \<notin> set (goroutines s0)"
    if "StopSend \<notin> set as"
  proof -
    have "idle_inv s0"
      unfolding s0_def using idle_inv_start that by (rule idle_inv_run)
    then show ?thesis
      by (auto simp add: idle_inv_def list_all_iff)
  qed
  define s where "s = Funnel_run (StopSend # as) (Funnel_start N)"
  have run: "s = Funnel_run as (Funnel_step StopSend (Funnel_start N))"
    by (simp add: s_def Funnel_run_def)
  have inv: "funnel_inv N 1 s" if "StopSend \<notin> set as"
    unfolding run using funnel_inv_stopped that by (rule funnel_inv_run)
  have one: "length (chan_buf (stop_slot s)) + count_list (goroutines s) Resending = 1"
    if "StopSend \<notin> set as"
    using inv [OF that] by (simp add: funnel_inv_def)
  have take: "Funnel_step (SelectStopToken i) s
      = \<lparr>stop_slot = Chan 1 [] False, goroutines = (goroutines s)[i := Resending]\<rparr>"
    if "StopSend \<notin> set as" "i < N" "goroutines s ! i = AtSelect" "chan_buf (stop_slot s) \<noteq> []"
    for i
    using inv [OF that(1)] that(2-) by (auto simp add: funnel_inv_def)
  have resend: "stop_slot s = Chan 1 [] False
      \<and> Funnel_step (Resend i) s
        = \<lparr>stop_slot = Chan 1 [True] False, goroutines = (goroutines s)[i := Returned]\<rparr>"
    if "StopSend \<notin> set as" "i < N" "goroutines s ! i = Resending" for i
  proof -
    have len: "length (goroutines s) = N"
      using inv [OF that(1)] by (simp add: funnel_inv_def)
    have "0 < count_list (goroutines s) Resending"
      using that len by (intro count_list_pos [of i]) simp_all
    then have "stop_slot s = Chan 1 [] False"
      using inv [OF that(1)] by (auto simp add: funnel_inv_def)
    then show ?thesis
      using that len by simp
  qed
  have to_resending: "a = SelectStopToken i \<and> chan_buf (stop_slot s) = [True]
      \<and> chan_buf (stop_slot (Funnel_step a s)) = []"
    if "StopSend \<notin> set as" "i < N" "goroutines (Funnel_step a s) ! i = Resending"
      "goroutines s ! i \<noteq> Resending" for a i
    using inv [OF that(1)] that(2-) by (intro becomes_Resending) (simp_all add: funnel_inv_def)
  have to_returned: "a = Resend i \<and> goroutines s ! i = Resending
      \<and> chan_buf (stop_slot s) = [] \<and> chan_buf (stop_slot (Funnel_step a s)) = [True]"
    if "StopSend \<notin> set as" "i < N" "goroutines (Funnel_step a s) ! i = Returned"
      "goroutines s ! i \<noteq> Returned" for a i
    using inv [OF that(1)] that(2-) by (intro becomes_Returned) (simp_all add: funnel_inv_def)
  have available: "chan_buf (stop_slot s) = [True]"
    if "StopSend \<notin> set as" "Resending \<notin> set (goroutines s)"
    using inv [OF that(1)] count_list_none [OF that(2)] by (auto simp add: funnel_inv_def)
  have all: "Funnel_run (daisy_chain N) (Funnel_start N)
      = \<lparr>stop_slot = Chan 1 [True] False, goroutines = replicate N Returned\<rparr>"
    by (simp add: daisy_chain_all_return chained_def)
  show ?thesis
    unfolding Let_def s_def [symmetric] s0_def [symmetric]
    using stop idle one take resend to_resending to_returned available all by blast
qed

text \<open>
  The theorem at a funnel of three goroutines: after \<^verbatim>\<open>Stop\<close> has sent its token, the
  first goroutine has received an event and the second one has taken the token, the slot
  is empty; the second goroutine then puts the token back and returns; and the chain
  ends with all three goroutines returned.
\<close>

theorem Funnel_stop_token_daisy_chain_witness:
  "Funnel_run [StopSend, SelectEvent 0, SelectStopToken 1] (Funnel_start 3)
     = \<lparr>stop_slot = Chan 1 [] False, goroutines = [Forwarding, Resending, AtSelect]\<rparr>
   \<and> Funnel_step (Resend 1)
       (Funnel_run [StopSend, SelectEvent 0, SelectStopToken 1] (Funnel_start 3))
     = \<lparr>stop_slot = Chan 1 [True] False, goroutines = [Forwarding, Returned, AtSelect]\<rparr>
   \<and> Funnel_run (daisy_chain 3) (Funnel_start 3)
     = \<lparr>stop_slot = Chan 1 [True] False, goroutines = [Returned, Returned, Returned]\<rparr>
   \<and> fst (snd (Funnel_Stop sample_Close
        \<lparr>funnel_From = [1, 2, 3], funnel_To = Some 0, funnel_stop = Chan 1 [] False\<rparr>
        {0, 1, 2, 3})) = Chan 1 [True] False"
  using Funnel_stop_token_daisy_chain
    [where f = "\<lparr>funnel_From = [1, 2, 3], funnel_To = Some 0, funnel_stop = Chan 1 [] False\<rparr>"
       and Close = sample_Close and w = "{0, 1, 2, 3}" and N = 3
       and as = "[SelectEvent 0, SelectStopToken 1]"]
  by (simp add: Funnel_run_def Funnel_start_def numeral_3_eq_3)

end
